theory Spec2Isabelle
  imports Main "HOL-Library.Word" "HOL-Library.Sublist"
begin

section \<open>Bytes, slices and errors\<close>

text \<open>
  A Python \<open>bytes\<close> object is a sequence of integers in \<open>0..255\<close>: a list of 8-bit
  words. Arithmetic on the elements is Python arithmetic on unbounded integers, so an
  element is read with \<open>uint\<close> before it takes part in a computation.
\<close>

type_synonym byte = "8 word"

text \<open>The exceptions the client can raise by itself.\<close>

datatype error = IndexError | UnicodeDecodeError | AssertionError

text \<open>
  \<open>xs[a:b]\<close> for constant bounds \<open>0 \<le> a \<le> b\<close>: a slice never raises and never pads,
  it stops where the sequence ends.
\<close>

definition slice :: "'a list \<Rightarrow> nat \<Rightarrow> nat \<Rightarrow> 'a list" where
  "slice xs a b = take (b - a) (drop a xs)"

text \<open>\<open>xs[i]\<close> for a constant \<open>i \<ge> 0\<close>: raises \<open>IndexError\<close> out of range.\<close>

definition getitem :: "'a list \<Rightarrow> nat \<Rightarrow> error + 'a" where
  "getitem xs i = (if i < length xs then Inr (xs ! i) else Inl IndexError)"

text \<open>
  \<open>bs.decode("ascii")\<close>: one character per byte, \<open>UnicodeDecodeError\<close> as soon as a
  byte is \<open>0x80\<close> or above.
\<close>

definition decode_ascii :: "byte list \<Rightarrow> error + string" where
  "decode_ascii bs =
     (if list_all (\<lambda>b. b < 0x80) bs then Inr (map (\<lambda>b. char_of (unat b)) bs)
      else Inl UnicodeDecodeError)"

text \<open>\<open>bytearray(data).index(0)\<close>, called only when a zero byte is present.\<close>

definition index0 :: "byte list \<Rightarrow> nat" where
  "index0 bs = length (takeWhile (\<lambda>b. b \<noteq> 0) bs)"

section \<open>The cartridge header\<close>

record cartridge_header =
  data :: "byte list"
  nintendo_logo :: "byte list"
  title :: string
  cart_type :: byte
  rom_size :: byte
  ram_size :: byte
  hdr_cksm :: byte

definition extract_title :: "byte list \<Rightarrow> error + string" where
  "extract_title bs =
     (let title_end = (if 0 \<in> set bs then index0 bs else 15)
      in decode_ascii (take title_end bs))"

text \<open>
  \<open>CartridgeHeader.__init__\<close>: the attributes are computed in the order of the
  source, so a title that does not decode raises before any index is read.
\<close>

definition CartridgeHeader :: "byte list \<Rightarrow> error + cartridge_header" where
  "CartridgeHeader hdrdata =
     (case extract_title (slice hdrdata 0x34 0x44) of
        Inl e \<Rightarrow> Inl e
      | Inr t \<Rightarrow>
     (case getitem hdrdata 0x47 of
        Inl e \<Rightarrow> Inl e
      | Inr ct \<Rightarrow>
     (case getitem hdrdata 0x48 of
        Inl e \<Rightarrow> Inl e
      | Inr ro \<Rightarrow>
     (case getitem hdrdata 0x49 of
        Inl e \<Rightarrow> Inl e
      | Inr ra \<Rightarrow>
     (case getitem hdrdata 0x4D of
        Inl e \<Rightarrow> Inl e
      | Inr ck \<Rightarrow>
          Inr \<lparr> data = hdrdata, nintendo_logo = slice hdrdata 0x4 0x34, title = t,
                cart_type = ct, rom_size = ro, ram_size = ra, hdr_cksm = ck \<rparr>)))))"

text \<open>
  \<open>valid\<close>: the loop runs on Python integers and reduces modulo 256 after every
  step; Python's \<open>%\<close> with a positive modulus is never negative, as \<open>mod\<close> on
  \<open>int\<close>.
\<close>

definition cksm_step :: "int \<Rightarrow> byte \<Rightarrow> int" where
  "cksm_step x b = (x - uint b - 1) mod 256"

definition valid :: "cartridge_header \<Rightarrow> bool" where
  "valid h = (foldl cksm_step 0 (slice (data h) 0x34 0x4D) = uint (hdr_cksm h))"

text \<open>
  The checksum as the specification words it: a running unsigned 8-bit value with
  wrap-around, started at 0, over the bytes at offsets \<open>[0x34, 0x4D)\<close>.
\<close>

definition spec_checksum :: "byte list \<Rightarrow> byte" where
  "spec_checksum hdr = foldl (\<lambda>x b. x - b - 1) 0 (map ((!) hdr) [0x34..<0x4D])"

section \<open>Transfer sizes\<close>

text \<open>
  The counts \<open>main\<close> computes from the header. \<open>2 << n\<close> is a shift on unbounded
  integers. A \<open>dict\<close> is a finite map, \<open>d.get(k, v)\<close> its lookup with a default.
\<close>

definition rom_num_blocks :: "cartridge_header \<Rightarrow> int" where
  "rom_num_blocks h = 32 * push_bit (unat (rom_size h)) 2"

definition ram_size_table :: "int \<rightharpoonup> int" where
  "ram_size_table = [2 \<mapsto> 1, 3 \<mapsto> 4, 4 \<mapsto> 16, 5 \<mapsto> 8]"

definition dict_get :: "('k \<rightharpoonup> 'v) \<Rightarrow> 'k \<Rightarrow> 'v \<Rightarrow> 'v" where
  "dict_get d k v = (case d k of None \<Rightarrow> v | Some w \<Rightarrow> w)"

definition ram_dump_num_blocks :: "cartridge_header \<Rightarrow> int" where
  "ram_dump_num_blocks h = dict_get ram_size_table (uint (ram_size h)) 0 * 16"

definition ram_flash_num_blocks :: "cartridge_header \<Rightarrow> int" where
  "ram_flash_num_blocks h = dict_get ram_size_table (uint (ram_size h)) 0"

section \<open>The serial transport\<close>

text \<open>
  The serial port is an external object with two operations the client uses:
  \<open>read(size)\<close>, which returns at most \<open>size\<close> bytes, and \<open>write(data)\<close>, which
  returns the number of bytes written. Both change the state of the port, of any type
  \<open>'s\<close>. The client is written against any such object.
\<close>

record 's serial =
  ser_read :: "nat \<Rightarrow> 's \<Rightarrow> byte list \<times> 's"
  ser_write :: "byte list \<Rightarrow> 's \<Rightarrow> nat \<times> 's"

text \<open>\<open>range(n)\<close> is empty for \<open>n \<le> 0\<close>.\<close>

definition py_range :: "int \<Rightarrow> nat list" where
  "py_range n = [0..<nat n]"

subsection \<open>dump\<close>

text \<open>
  One iteration per block: \<open>block = ser.read(512); dump_ += block\<close>. The progress
  line is not modelled.
\<close>

fun dump_loop :: "'s serial \<Rightarrow> nat list \<Rightarrow> byte list \<Rightarrow> 's \<Rightarrow> byte list \<times> 's" where
  "dump_loop ser [] dump' s = (dump', s)"
| "dump_loop ser (i # ks) dump' s =
     (let (block, s') = ser_read ser 512 s
      in dump_loop ser ks (dump' @ block) s')"

text \<open>
  \<open>dump\<close> ends with \<open>out_file.write_bytes(dump_)\<close>: its result is the file it writes,
  as the path and the contents, and the state the port is left in.
\<close>

definition dump :: "'s serial \<Rightarrow> string \<Rightarrow> int \<Rightarrow> 's \<Rightarrow> (string \<times> byte list) \<times> 's" where
  "dump ser title' num_blocks s =
     (let (dump', s') = dump_loop ser (py_range num_blocks) [] s
      in ((title', dump'), s'))"

subsection \<open>flash\<close>

text \<open>
  The inner loop of \<open>flash\<close>, over the chunk indices \<open>j\<close>: the chunk is written, the
  assertion on the count the port returns aborts the whole call when it fails, and
  \<open>ser.read()\<close> (one byte by default) waits for the answer, which is dropped.
\<close>

fun flash_chunks :: "'s serial \<Rightarrow> byte list \<Rightarrow> nat list \<Rightarrow> 's \<Rightarrow> (error + unit) \<times> 's" where
  "flash_chunks ser bank [] s = (Inr (), s)"
| "flash_chunks ser bank (j # js) s =
     (let chunk = slice bank (j * 32) ((j + 1) * 32);
          (written, s1) = ser_write ser chunk s
      in if written \<noteq> 32 then (Inl AssertionError, s1)
         else let (answer, s2) = ser_read ser 1 s1
              in flash_chunks ser bank js s2)"

text \<open>The outer loop, over the bank indices \<open>i\<close>, with the read that ends a bank.\<close>

fun flash_banks :: "'s serial \<Rightarrow> byte list \<Rightarrow> nat list \<Rightarrow> 's \<Rightarrow> (error + unit) \<times> 's" where
  "flash_banks ser data' [] s = (Inr (), s)"
| "flash_banks ser data' (i # ks) s =
     (let bank = slice data' (i * 0x2000) ((i + 1) * 0x2000)
      in case flash_chunks ser bank (py_range 256) s of
           (Inl e, s1) \<Rightarrow> (Inl e, s1)
         | (Inr u, s1) \<Rightarrow>
             (let (answer, s2) = ser_read ser 1 s1
              in flash_banks ser data' ks s2))"

definition flash :: "'s serial \<Rightarrow> byte list \<Rightarrow> int \<Rightarrow> 's \<Rightarrow> (error + unit) \<times> 's" where
  "flash ser data' num_banks s = flash_banks ser data' (py_range num_banks) s"

subsection \<open>Observing the calls on the port\<close>

text \<open>
  What the client does to the port, in order: each write with the chunk and the count
  the port returned, each read with the size asked for and the bytes returned.
\<close>

datatype event = Wrote "byte list" nat | ReadEv nat "byte list"

text \<open>
  A call without its data: a write, or a read with the number of bytes it asked for.
\<close>

datatype kind = W | R nat

fun kind_of :: "event \<Rightarrow> kind" where
  "kind_of (Wrote c n) = W"
| "kind_of (ReadEv n bs) = R n"

text \<open>
  A port that behaves as \<open>ser\<close> does and records every call made on it. Running the
  client on \<open>traced ser\<close> from an empty record gives the sequence of its calls.
\<close>

definition traced :: "'s serial \<Rightarrow> (event list \<times> 's) serial" where
  "traced ser =
     \<lparr> ser_read = (\<lambda>n (log, s).
          let (bs, s') = ser_read ser n s in (bs, (log @ [ReadEv n bs], s'))),
       ser_write = (\<lambda>c (log, s).
          let (w, s') = ser_write ser c s in (w, (log @ [Wrote c w], s'))) \<rparr>"

text \<open>
  The calls each loop makes on a port, computed along with the loop: what \<open>traced\<close>
  records is shown below to be exactly these lists.
\<close>

fun dump_log :: "'s serial \<Rightarrow> nat list \<Rightarrow> 's \<Rightarrow> event list" where
  "dump_log ser [] s = []"
| "dump_log ser (i # ks) s =
     (let (block, s') = ser_read ser 512 s
      in ReadEv 512 block # dump_log ser ks s')"

fun chunks_log :: "'s serial \<Rightarrow> byte list \<Rightarrow> nat list \<Rightarrow> 's \<Rightarrow> event list" where
  "chunks_log ser bank [] s = []"
| "chunks_log ser bank (j # js) s =
     (let chunk = slice bank (j * 32) ((j + 1) * 32);
          (written, s1) = ser_write ser chunk s
      in if written \<noteq> 32 then [Wrote chunk written]
         else let (answer, s2) = ser_read ser 1 s1
              in Wrote chunk written # ReadEv 1 answer # chunks_log ser bank js s2)"

fun banks_log :: "'s serial \<Rightarrow> byte list \<Rightarrow> nat list \<Rightarrow> 's \<Rightarrow> event list" where
  "banks_log ser data' [] s = []"
| "banks_log ser data' (i # ks) s =
     (let bank = slice data' (i * 0x2000) ((i + 1) * 0x2000)
      in case flash_chunks ser bank (py_range 256) s of
           (Inl e, s1) \<Rightarrow> chunks_log ser bank (py_range 256) s
         | (Inr u, s1) \<Rightarrow>
             (let (answer, s2) = ser_read ser 1 s1
              in chunks_log ser bank (py_range 256) s @ ReadEv 1 answer
                 # banks_log ser data' ks s2))"

text \<open>
  The order of calls the protocol prescribes for one chunk, one bank, \<open>n\<close> banks:
  every read asks for one byte.
\<close>

definition chunk_pattern :: "nat \<Rightarrow> kind list" where
  "chunk_pattern m = concat (replicate m [W, R 1])"

definition bank_pattern :: "kind list" where
  "bank_pattern = chunk_pattern 256 @ [R 1]"

definition flash_pattern :: "nat \<Rightarrow> kind list" where
  "flash_pattern n = concat (replicate n bank_pattern)"

text \<open>The writes of a record on which the port took a count other than 32.\<close>

fun short_write :: "event \<Rightarrow> bool" where
  "short_write (Wrote c n) = (n \<noteq> 32)"
| "short_write (ReadEv n bs) = False"

text \<open>The bytes a recorded read returned, and whether a call is a read of a given size.\<close>

fun read_bytes :: "event \<Rightarrow> byte list" where
  "read_bytes (ReadEv n bs) = bs"
| "read_bytes (Wrote c n) = []"

fun read_of :: "nat \<Rightarrow> event \<Rightarrow> bool" where
  "read_of k (ReadEv n bs) = (n = k)"
| "read_of k (Wrote c n) = False"

text \<open>
  A recorded call is answered when it is a write, or a read that returned at least one
  byte: a read that returned nothing has consumed no acknowledgment.
\<close>

fun acked :: "event \<Rightarrow> bool" where
  "acked (ReadEv n bs) = (bs \<noteq> [])"
| "acked (Wrote c n) = True"

text \<open>
  A port is blocking when a read of one byte never returns empty, as a port opened
  without a timeout.
\<close>

definition blocking :: "'s serial \<Rightarrow> bool" where
  "blocking ser = (\<forall>s. fst (ser_read ser 1 s) \<noteq> [])"

text \<open>
  A port is honest when it never reports more bytes written than it was given, and
  accepting when it always takes the whole chunk.
\<close>

definition accepting :: "'s serial \<Rightarrow> bool" where
  "accepting ser = (\<forall>c s. fst (ser_write ser c s) = length c)"

definition honest :: "'s serial \<Rightarrow> bool" where
  "honest ser = (\<forall>c s. fst (ser_write ser c s) \<le> length c)"

subsection \<open>Concrete ports\<close>

text \<open>
  A port with a receive timeout, holding the bytes that have arrived: \<open>read\<close> returns
  what is there, up to the size asked for; \<open>write\<close> takes everything.
\<close>

definition buffered :: "(byte list) serial" where
  "buffered =
     \<lparr> ser_read = (\<lambda>n buf. (take n buf, drop n buf)),
       ser_write = (\<lambda>c buf. (length c, buf)) \<rparr>"

text \<open>
  A port with a receive timeout on which nothing ever arrives: every read returns no
  byte; \<open>write\<close> takes everything.
\<close>

definition silent :: "'s serial" where
  "silent =
     \<lparr> ser_read = (\<lambda>n u. ([], u)),
       ser_write = (\<lambda>c u. (length c, u)) \<rparr>"

text \<open>
  A port whose device answers at once: every read returns as many bytes \<open>0x06\<close> as
  were asked for; \<open>write\<close> takes everything.
\<close>

definition acking :: "'s serial" where
  "acking =
     \<lparr> ser_read = (\<lambda>n u. (replicate n 0x06, u)),
       ser_write = (\<lambda>c u. (length c, u)) \<rparr>"

section \<open>Sample inputs\<close>

text \<open>
  An 80-byte header with the title \<open>TETRIS\<close>, zero elsewhere, and the checksum that
  goes with it; one whose title field holds sixteen letters and no zero byte; and a
  buffer of 78 bytes.
\<close>

definition sample_header :: "byte list" where
  "sample_header =
     replicate 0x34 0 @ [0x54, 0x45, 0x54, 0x52, 0x49, 0x53] @ replicate 10 0
     @ replicate 9 0 @ [0x0C, 0, 0]"

definition sample_parsed :: cartridge_header where
  "sample_parsed =
     \<lparr> data = sample_header, nintendo_logo = replicate 0x30 0, title = ''TETRIS'',
       cart_type = 0, rom_size = 0, ram_size = 0, hdr_cksm = 0x0C \<rparr>"

definition long_title_header :: "byte list" where
  "long_title_header = replicate 0x34 0 @ replicate 16 0x41 @ replicate 9 0 @ [0xD7, 0, 0]"

definition long_title_parsed :: cartridge_header where
  "long_title_parsed =
     \<lparr> data = long_title_header, nintendo_logo = replicate 0x30 0,
       title = ''AAAAAAAAAAAAAAA'', cart_type = 0, rom_size = 0, ram_size = 0,
       hdr_cksm = 0xD7 \<rparr>"


text \<open>A payload of 33 bytes, and one of exactly one bank.\<close>

definition short_payload :: "byte list" where
  "short_payload = replicate 33 0x5A"

definition full_bank :: "byte list" where
  "full_bank = replicate 0x2000 0xA5"


section \<open>Slices and decoding\<close>

lemma length_slice: "length (slice xs a b) = min (b - a) (length xs - a)"
  by (simp add: slice_def)

lemma slice_nth: "a + k < b \<Longrightarrow> b \<le> length xs \<Longrightarrow> slice xs a b ! k = xs ! (a + k)"
  by (simp add: slice_def)

lemma slice_nths: "b \<le> length xs \<Longrightarrow> slice xs a b = map ((!) xs) [a..<b]"
  by (rule nth_equalityI) (auto simp: slice_def)

lemma decode_ascii_Inr:
  "decode_ascii bs = Inr t \<Longrightarrow>
     t = map (\<lambda>b. char_of (unat b)) bs \<and> list_all (\<lambda>b. b < 0x80) bs"
  by (auto simp: decode_ascii_def split: if_splits)

lemma index0_first:
  assumes "k < length bs" and "bs ! k = 0" and "\<forall>j<k. bs ! j \<noteq> 0"
  shows "index0 bs = k"
proof -
  have "takeWhile (\<lambda>b. b \<noteq> 0) bs = take k bs"
    using assms by (intro takeWhile_eq_take_P_nth) auto
  then show ?thesis using assms(1) by (simp add: index0_def)
qed

lemma index0_less: "0 \<in> set bs \<Longrightarrow> index0 bs < length bs"
  unfolding index0_def by (induction bs) auto

lemma take_index0: "take (index0 bs) bs = takeWhile (\<lambda>b. b \<noteq> 0) bs"
  unfolding index0_def by (rule takeWhile_eq_take [symmetric])

lemma char_of_unat_zero: "char_of (unat (b::byte)) = CHR 0x00 \<longleftrightarrow> b = 0"
proof -
  have "unat b < 2 ^ 8" using unsigned_less [of b] by simp
  then have "take_bit 8 (unat b) = unat b" by (simp only: take_bit_nat_eq_self)
  then show ?thesis by (simp add: char_of_eq_iff unat_eq_0)
qed

section \<open>The header: construction, checksum, title\<close>

lemma CartridgeHeader_fields:
  assumes "CartridgeHeader hdr = Inr h"
  shows "data h = hdr" and "0x4D < length hdr" and "hdr_cksm h = hdr ! 0x4D"
    and "rom_size h = hdr ! 0x48" and "ram_size h = hdr ! 0x49"
    and "cart_type h = hdr ! 0x47"
    and "extract_title (slice hdr 0x34 0x44) = Inr (title h)"
  using assms
  by (auto simp: CartridgeHeader_def getitem_def split: sum.splits if_splits)

lemma sample_parses: "CartridgeHeader sample_header = Inr sample_parsed"
  by code_simp

lemma long_title_parses: "CartridgeHeader long_title_header = Inr long_title_parsed"
  by code_simp

lemma sample_length: "length sample_header = 80"
  by code_simp

lemma long_title_length: "length long_title_header = 80"
  by code_simp

lemma long_title_no_zero: "0 \<notin> set (slice long_title_header 0x34 0x44)"
  by code_simp

lemma cksm_step_word: "cksm_step (uint w) b = uint (w - b - 1)"
  by (simp add: cksm_step_def uint_word_ariths mod_diff_left_eq)

lemma foldl_cksm_word:
  "foldl cksm_step (uint w) bs = uint (foldl (\<lambda>x b. x - b - 1) w bs)"
  by (induction bs arbitrary: w) (simp_all add: cksm_step_word)

text \<open>
  C1. For every 80-byte header buffer, \<open>valid()\<close> is true exactly when the running
  8-bit value, started at 0 and taken through \<open>x - b - 1\<close> with unsigned wrap-around for
  each byte \<open>b\<close> at the offsets \<open>[0x34, 0x4D)\<close>, equals the byte at offset \<open>0x4D\<close>.
  The method computes on integers and reduces modulo 256; the statement compares it
  with the computation on 8-bit words.
\<close>

theorem valid_iff_checksum:
  assumes "length hdr = 80" and "CartridgeHeader hdr = Inr h"
  shows "valid h \<longleftrightarrow> spec_checksum hdr = hdr ! 0x4D"
proof -
  have eq: "slice hdr 0x34 0x4D = map ((!) hdr) [0x34..<0x4D]"
    using assms(1) by (intro slice_nths) simp
  have "foldl cksm_step (uint (0::byte)) (slice hdr 0x34 0x4D) = uint (spec_checksum hdr)"
    unfolding spec_checksum_def eq by (rule foldl_cksm_word)
  then have "foldl cksm_step 0 (slice hdr 0x34 0x4D) = uint (spec_checksum hdr)"
    by (simp only: unsigned_0)
  then show ?thesis
    using CartridgeHeader_fields(1,3) [OF assms(2)]
    by (simp add: valid_def word_uint_eq_iff)
qed

theorem valid_iff_checksum_witness:
  "length sample_header = 80 \<and> CartridgeHeader sample_header = Inr sample_parsed
   \<and> spec_checksum sample_header = sample_header ! 0x4D \<and> valid sample_parsed"
proof -
  have c: "spec_checksum sample_header = sample_header ! 0x4D"
    by code_simp
  from valid_iff_checksum [OF sample_length sample_parses] c
  have "valid sample_parsed" by simp
  with sample_length sample_parses c show ?thesis by simp
qed

lemma extract_title_Inr:
  assumes "extract_title bs = Inr t"
  shows "t = map (\<lambda>b. char_of (unat b))
           (if 0 \<in> set bs then takeWhile (\<lambda>b. b \<noteq> 0) bs else take 15 bs)"
  using assms decode_ascii_Inr [of "take (if 0 \<in> set bs then index0 bs else 15) bs" t]
  by (simp add: extract_title_def take_index0 split: if_splits)

text \<open>
  C8. For every 80-byte header from which a header object is constructed, the title has
  at most 15 characters; it has exactly 15 when the field \<open>[0x34, 0x44)\<close> holds no
  zero byte, and exactly \<open>k\<close> when the first zero byte of the field is at relative offset
  \<open>k\<close>; the zero character is never part of the title.
\<close>

theorem title_length:
  assumes "length hdr = 80" and "CartridgeHeader hdr = Inr h"
  shows "length (title h) \<le> 15
    \<and> (0 \<notin> set (slice hdr 0x34 0x44) \<longrightarrow> length (title h) = 15)
    \<and> (\<forall>k<16. hdr ! (0x34 + k) = 0 \<and> (\<forall>j<k. hdr ! (0x34 + j) \<noteq> 0)
          \<longrightarrow> length (title h) = k)
    \<and> CHR 0x00 \<notin> set (title h)"
proof -
  let ?f = "slice hdr 0x34 0x44"
  have len: "length ?f = 16" using assms(1) by (simp add: length_slice)
  have nth: "?f ! k = hdr ! (0x34 + k)" if "k < 16" for k
    using that assms(1) by (simp add: slice_nth)
  have t: "title h = map (\<lambda>b. char_of (unat b))
      (if 0 \<in> set ?f then takeWhile (\<lambda>b. b \<noteq> 0) ?f else take 15 ?f)"
    using CartridgeHeader_fields(7) [OF assms(2)] by (rule extract_title_Inr)
  have a: "length (title h) \<le> 15"
    using t len index0_less [of ?f] by (auto simp: index0_def)
  have b: "length (title h) = 15" if "0 \<notin> set ?f"
    using t len that by simp
  have c: "length (title h) = k"
    if "k < 16" and "hdr ! (0x34 + k) = 0" and "\<forall>j<k. hdr ! (0x34 + j) \<noteq> 0" for k
  proof -
    have "index0 ?f = k"
      using that len nth by (intro index0_first) auto
    moreover have "0 \<in> set ?f"
      using that(1,2) len nth [of k] by (metis nth_mem)
    ultimately show ?thesis using t by (simp add: index0_def)
  qed
  have d: "CHR 0x00 \<notin> set (title h)"
  proof
    assume "CHR 0x00 \<in> set (title h)"
    then obtain x
      where x: "x \<in> set (if 0 \<in> set ?f then takeWhile (\<lambda>b. b \<noteq> 0) ?f else take 15 ?f)"
        and "char_of (unat x) = CHR 0x00"
      unfolding t by auto
    then have "x = 0" by (simp only: char_of_unat_zero)
    with x show False
      by (auto split: if_splits dest: set_takeWhileD in_set_takeD)
  qed
  from a b c d show ?thesis by blast
qed

theorem title_length_witness:
  "length sample_header = 80 \<and> CartridgeHeader sample_header = Inr sample_parsed
   \<and> slice sample_header 0x34 0x3B = [0x54, 0x45, 0x54, 0x52, 0x49, 0x53, 0]
   \<and> length (title sample_parsed) = 6
   \<and> length long_title_header = 80
   \<and> CartridgeHeader long_title_header = Inr long_title_parsed
   \<and> 0 \<notin> set (slice long_title_header 0x34 0x44)
   \<and> length (title long_title_parsed) = 15"
proof -
  have b: "sample_header ! (0x34 + 6) = 0" by code_simp
  have c: "\<forall>j<6. sample_header ! (0x34 + j) \<noteq> 0"
  proof (intro allI impI)
    fix j :: nat
    assume "j < 6"
    then consider "j = 0" | "j = 1" | "j = 2" | "j = 3" | "j = 4" | "j = 5"
      by linarith
    then show "sample_header ! (0x34 + j) \<noteq> 0"
      by cases (simp_all add: sample_header_def nth_append)
  qed
  from title_length [OF sample_length sample_parses] b c
  have "length (title sample_parsed) = 6" by simp
  moreover from title_length [OF long_title_length long_title_parses] long_title_no_zero
  have "length (title long_title_parsed) = 15" by simp
  moreover have "slice sample_header 0x34 0x3B = [0x54, 0x45, 0x54, 0x52, 0x49, 0x53, 0]"
    by code_simp
  ultimately show ?thesis
    using sample_length long_title_length long_title_no_zero
      sample_parses long_title_parses by simp
qed

text \<open>
  C9, as the specification states it: with no zero byte in the 16-byte title field, all
  sixteen bytes become the title. It fails on a field of sixteen letters \<open>A\<close>: the
  title has the first fifteen, while decoding the whole field gives sixteen.
\<close>

theorem title_takes_16_counterexample:
  "0 \<notin> set (slice long_title_header 0x34 0x44)
   \<and> map_sum id title (CartridgeHeader long_title_header) = Inr ''AAAAAAAAAAAAAAA''
   \<and> decode_ascii (slice long_title_header 0x34 0x44) = Inr ''AAAAAAAAAAAAAAAA''"
  by code_simp

text \<open>
  C9, amended: for every header whose 16-byte title field contains no zero byte, the
  title is the ASCII decoding of the first 15 bytes of the field, the bytes at
  \<open>[0x34, 0x43)\<close>; the sixteenth byte is left out.
\<close>

theorem title_takes_15:
  assumes "0 \<notin> set (slice hdr 0x34 0x44)" and "CartridgeHeader hdr = Inr h"
  shows "Inr (title h) = decode_ascii (slice hdr 0x34 0x43)"
proof -
  have "take 15 (slice hdr 0x34 0x44) = slice hdr 0x34 0x43"
    by (simp add: slice_def)
  then show ?thesis
    using assms(1) CartridgeHeader_fields(7) [OF assms(2)]
    by (simp add: extract_title_def)
qed

theorem title_takes_15_witness:
  "0 \<notin> set (slice long_title_header 0x34 0x44)
   \<and> CartridgeHeader long_title_header = Inr long_title_parsed
   \<and> Inr (title long_title_parsed) = decode_ascii (slice long_title_header 0x34 0x43)
   \<and> length (title long_title_parsed) = 15"
proof -
  have l: "length (title long_title_parsed) = 15" by code_simp
  from title_takes_15 [OF long_title_no_zero long_title_parses]
    long_title_no_zero l long_title_parses
  show ?thesis by simp
qed




section \<open>Transfer sizes\<close>

text \<open>
  C7. For every header the ROM block count is \<open>32 * (2 << rom_size)\<close>, that is
  \<open>32 * (2 * 2 ^ rom_size)\<close>: 64 blocks for the code 0 and 128 for the code 1.
\<close>

theorem rom_block_count:
  "rom_num_blocks h = 32 * (2 * 2 ^ unat (rom_size h))
   \<and> rom_num_blocks (h\<lparr>rom_size := 0\<rparr>) = 64
   \<and> rom_num_blocks (h\<lparr>rom_size := 1\<rparr>) = 128"
  by (simp add: rom_num_blocks_def push_bit_eq_mult)

text \<open>
  C6. For every header the bank count for flashing RAM is 1, 4, 16, 8 for the codes
  2, 3, 4, 5 and 0 for every other code; the block count for dumping RAM is sixteen
  times that, 16, 64, 256, 128 and 0. A count of 0 is an empty transfer and no error:
  \<open>dump\<close> writes an empty file and \<open>flash\<close> returns, and neither touches the port.
\<close>

theorem ram_counts:
  "ram_flash_num_blocks h =
     (if ram_size h = 2 then 1 else if ram_size h = 3 then 4
      else if ram_size h = 4 then 16 else if ram_size h = 5 then 8 else 0)
   \<and> ram_dump_num_blocks h =
     (if ram_size h = 2 then 16 else if ram_size h = 3 then 64
      else if ram_size h = 4 then 256 else if ram_size h = 5 then 128 else 0)
   \<and> ram_dump_num_blocks h = 16 * ram_flash_num_blocks h
   \<and> dump ser path 0 s = ((path, []), s)
   \<and> flash ser payload 0 s = (Inr (), s)"
proof -
  have "ram_flash_num_blocks h =
     (if ram_size h = 2 then 1 else if ram_size h = 3 then 4
      else if ram_size h = 4 then 16 else if ram_size h = 5 then 8 else 0)"
    by (auto simp: ram_flash_num_blocks_def dict_get_def ram_size_table_def
        word_uint_eq_iff)
  moreover have "ram_dump_num_blocks h = 16 * ram_flash_num_blocks h"
    by (simp add: ram_flash_num_blocks_def ram_dump_num_blocks_def)
  moreover have "dump ser path 0 s = ((path, []), s)"
    by (simp add: dump_def py_range_def)
  moreover have "flash ser payload 0 s = (Inr (), s)"
    by (simp add: flash_def py_range_def)
  ultimately show ?thesis by simp
qed

section \<open>The calls made on the port\<close>

lemma traced_write:
  "ser_write (traced T) c (log, s) =
     (case ser_write T c s of (w, s') \<Rightarrow> (w, (log @ [Wrote c w], s')))"
  by (simp add: traced_def)

lemma traced_read:
  "ser_read (traced T) n (log, s) =
     (case ser_read T n s of (bs, s') \<Rightarrow> (bs, (log @ [ReadEv n bs], s')))"
  by (simp add: traced_def)

lemma dump_loop_traced:
  "dump_loop (traced T) ks acc (log, s) =
     (case dump_loop T ks acc s of (out, s') \<Rightarrow> (out, (log @ dump_log T ks s, s')))"
  by (induction ks arbitrary: acc log s) (auto simp: traced_read split: prod.splits)

lemma flash_chunks_traced:
  "flash_chunks (traced T) bank js (log, s) =
     (case flash_chunks T bank js s of (r, s') \<Rightarrow> (r, (log @ chunks_log T bank js s, s')))"
  by (induction js arbitrary: log s)
     (auto simp: traced_read traced_write Let_def split: prod.splits)

lemma flash_banks_traced:
  "flash_banks (traced T) payload ks (log, s) =
     (case flash_banks T payload ks s of
        (r, s') \<Rightarrow> (r, (log @ banks_log T payload ks s, s')))"
  by (induction ks arbitrary: log s)
     (auto simp: traced_read flash_chunks_traced Let_def split: prod.splits sum.splits)

lemma chunk_pattern_simps:
  "chunk_pattern 0 = []" "chunk_pattern (Suc m) = W # R 1 # chunk_pattern m"
  by (simp_all add: chunk_pattern_def)

lemma flash_pattern_simps:
  "flash_pattern 0 = []" "flash_pattern (Suc n) = bank_pattern @ flash_pattern n"
  by (simp_all add: flash_pattern_def)

lemma chunks_kinds:
  "(fst (flash_chunks T bank js s) = Inr ()
      \<and> map kind_of (chunks_log T bank js s) = chunk_pattern (length js))
   \<or> (fst (flash_chunks T bank js s) = Inl AssertionError
      \<and> (\<exists>m<length js. map kind_of (chunks_log T bank js s) = chunk_pattern m @ [W]))"
proof (induction js arbitrary: s)
  case Nil
  show ?case by (simp add: chunk_pattern_simps)
next
  case (Cons j js)
  obtain w s1 where w: "ser_write T (slice bank (j * 32) ((j + 1) * 32)) s = (w, s1)"
    by fastforce
  obtain bs s2 where r: "ser_read T 1 s1 = (bs, s2)"
    by fastforce
  show ?case
  proof (cases "w = 32")
    case False
    then have "map kind_of (chunks_log T bank (j # js) s) = chunk_pattern 0 @ [W]"
      using w by (simp add: chunk_pattern_simps)
    then show ?thesis using False w by auto
  next
    case True
    from Cons.IH [of s2] show ?thesis
    proof (elim disjE conjE exE)
      assume "fst (flash_chunks T bank js s2) = Inr ()"
        and "map kind_of (chunks_log T bank js s2) = chunk_pattern (length js)"
      then show ?thesis using True w r by (simp add: chunk_pattern_simps)
    next
      fix m
      assume "fst (flash_chunks T bank js s2) = Inl AssertionError"
        and "m < length js"
        and "map kind_of (chunks_log T bank js s2) = chunk_pattern m @ [W]"
      then have "fst (flash_chunks T bank (j # js) s) = Inl AssertionError"
        and "Suc m < length (j # js)"
        and "map kind_of (chunks_log T bank (j # js) s) = chunk_pattern (Suc m) @ [W]"
        using True w r by (simp_all add: chunk_pattern_simps)
      then show ?thesis by blast
    qed
  qed
qed


lemma length_py_range: "length (py_range n) = nat n"
  by (simp add: py_range_def)

lemma flash_chunks_result:
  "fst (flash_chunks T bank js s) = Inr () \<or> fst (flash_chunks T bank js s) = Inl AssertionError"
  using chunks_kinds [of T bank js s] by blast

lemma banks_kinds:
  "(fst (flash_banks T payload ks s) = Inr ()
      \<and> map kind_of (banks_log T payload ks s) = flash_pattern (length ks))
   \<or> (fst (flash_banks T payload ks s) = Inl AssertionError
      \<and> (\<exists>k<length ks. \<exists>m<256.
            map kind_of (banks_log T payload ks s) = flash_pattern k @ chunk_pattern m @ [W]))"
proof (induction ks arbitrary: s)
  case Nil
  show ?case by (simp add: flash_pattern_simps)
next
  case (Cons i ks)
  let ?bank = "slice payload (i * 0x2000) ((i + 1) * 0x2000)"
  obtain r1 s1 where c: "flash_chunks T ?bank (py_range 256) s = (r1, s1)"
    by fastforce
  obtain bs s2 where r: "ser_read T 1 s1 = (bs, s2)"
    by fastforce
  from chunks_kinds [of T ?bank "py_range 256" s] show ?case
  proof (elim disjE conjE exE)
    fix m
    assume "fst (flash_chunks T ?bank (py_range 256) s) = Inl AssertionError"
      and "m < length (py_range 256)"
      and "map kind_of (chunks_log T ?bank (py_range 256) s) = chunk_pattern m @ [W]"
    then have "fst (flash_banks T payload (i # ks) s) = Inl AssertionError"
      and "0 < length (i # ks)" and "m < 256"
      and "map kind_of (banks_log T payload (i # ks) s)
           = flash_pattern 0 @ chunk_pattern m @ [W]"
      using c by (simp_all add: flash_pattern_simps length_py_range)
    then show ?thesis by blast
  next
    assume ok: "fst (flash_chunks T ?bank (py_range 256) s) = Inr ()"
      and pat: "map kind_of (chunks_log T ?bank (py_range 256) s)
                = chunk_pattern (length (py_range 256))"
    from Cons.IH [of s2] show ?thesis
    proof (elim disjE conjE exE)
      assume "fst (flash_banks T payload ks s2) = Inr ()"
        and "map kind_of (banks_log T payload ks s2) = flash_pattern (length ks)"
      then show ?thesis
        using ok pat c r
        by (simp add: flash_pattern_simps bank_pattern_def length_py_range)
    next
      fix k m
      assume "fst (flash_banks T payload ks s2) = Inl AssertionError"
        and "k < length ks" and "m < (256::nat)"
        and "map kind_of (banks_log T payload ks s2)
             = flash_pattern k @ chunk_pattern m @ [W]"
      then have "fst (flash_banks T payload (i # ks) s) = Inl AssertionError"
        and "Suc k < length (i # ks)" and "m < 256"
        and "map kind_of (banks_log T payload (i # ks) s)
             = flash_pattern (Suc k) @ chunk_pattern m @ [W]"
        using ok pat c r
        by (simp_all add: flash_pattern_simps bank_pattern_def length_py_range)
      then show ?thesis by blast
    qed
  qed
qed

lemma chunk_pattern_add: "chunk_pattern (m + k) = chunk_pattern m @ chunk_pattern k"
  by (simp add: chunk_pattern_def replicate_add)

lemma flash_pattern_add: "flash_pattern (m + k) = flash_pattern m @ flash_pattern k"
  by (simp add: flash_pattern_def replicate_add)

lemma failed_prefix:
  assumes "k < n" and "m < 256"
  shows "prefix (flash_pattern k @ chunk_pattern m @ [W]) (flash_pattern n)"
proof -
  have "chunk_pattern 256 = chunk_pattern (m + Suc (255 - m))"
    using assms(2) by simp
  then have b: "bank_pattern = (chunk_pattern m @ [W]) @ R 1 # chunk_pattern (255 - m) @ [R 1]"
    unfolding bank_pattern_def chunk_pattern_add by (simp add: chunk_pattern_simps)
  have "flash_pattern n = flash_pattern (k + Suc (n - Suc k))"
    using assms(1) by simp
  then have "flash_pattern n
      = (flash_pattern k @ chunk_pattern m @ [W])
        @ R 1 # chunk_pattern (255 - m) @ [R 1] @ flash_pattern (n - Suc k)"
    unfolding flash_pattern_add flash_pattern_simps b by simp
  then show ?thesis by (metis prefixI)
qed

section \<open>flash: the order of the calls\<close>

lemma flash_traced:
  "flash (traced T) payload n (log, s) =
     (case flash T payload n s of
        (r, s') \<Rightarrow> (r, (log @ banks_log T payload (py_range n) s, s')))"
  by (simp add: flash_def flash_banks_traced)

lemma flash_traced_result: "fst (flash (traced T) payload n (log, s)) = fst (flash T payload n s)"
  by (simp add: flash_traced split: prod.splits)

lemma flash_traced_log:
  "fst (snd (flash (traced T) payload n (log, s))) = log @ banks_log T payload (py_range n) s"
  by (simp add: flash_traced split: prod.splits)

lemma flash_traced_state:
  "snd (snd (flash (traced T) payload n (log, s))) = snd (flash T payload n s)"
  by (simp add: flash_traced split: prod.splits)

lemma flash_chunks_full:
  assumes "accepting T" and "\<forall>j\<in>set js. (j + 1) * 32 \<le> length bank"
  shows "fst (flash_chunks T bank js s) = Inr ()"
  using assms(2)
proof (induction js arbitrary: s)
  case Nil
  show ?case by simp
next
  case (Cons j js)
  have "fst (ser_write T (slice bank (j * 32) ((j + 1) * 32)) s)
        = length (slice bank (j * 32) ((j + 1) * 32))"
    using assms(1) by (simp add: accepting_def)
  also have "\<dots> = 32" using Cons.prems by (auto simp: length_slice)
  finally show ?case using Cons by (auto simp: Let_def split: prod.splits)
qed

lemma flash_banks_full:
  assumes "accepting T" and "\<forall>i\<in>set ks. (i + 1) * 0x2000 \<le> length payload"
  shows "fst (flash_banks T payload ks s) = Inr ()"
  using assms(2)
proof (induction ks arbitrary: s)
  case Nil
  show ?case by simp
next
  case (Cons i ks)
  let ?bank = "slice payload (i * 0x2000) ((i + 1) * 0x2000)"
  have "length ?bank = 0x2000" using Cons.prems by (auto simp: length_slice)
  then have "\<forall>j\<in>set (py_range 256). (j + 1) * 32 \<le> length ?bank"
    by (auto simp: py_range_def)
  from flash_chunks_full [OF assms(1) this, of s] show ?case
    using Cons by (auto simp: Let_def split: prod.splits sum.splits)
qed

lemma flash_full:
  assumes "accepting T" and "nat n * 0x2000 \<le> length payload"
  shows "fst (flash T payload n s) = Inr ()"
proof -
  have "\<forall>i\<in>set (py_range n). (i + 1) * 0x2000 \<le> length payload"
  proof
    fix i assume "i \<in> set (py_range n)"
    then have "i + 1 \<le> nat n" by (simp add: py_range_def)
    then have "(i + 1) * 0x2000 \<le> nat n * 0x2000" by (rule mult_le_mono1)
    then show "(i + 1) * 0x2000 \<le> length payload" using assms(2) by simp
  qed
  then show ?thesis unfolding flash_def by (rule flash_banks_full [OF assms(1)])
qed

lemma buffered_accepting: "accepting buffered"
  by (simp add: accepting_def buffered_def)

lemma short_run:
  "flash (traced buffered) short_payload 1 ([], []) =
     (Inl AssertionError, ([Wrote (replicate 32 0x5A) 32, ReadEv 1 [], Wrote [0x5A] 1], []))"
  by code_simp

lemma silent_accepting: "accepting silent"
  by (simp add: accepting_def silent_def)

lemma acking_accepting: "accepting acking"
  by (simp add: accepting_def acking_def)

lemma acking_blocking: "blocking acking"
  by (simp add: blocking_def acking_def)

lemma chunks_acked:
  assumes "blocking T"
  shows "list_all acked (chunks_log T bank js s)"
proof (induction js arbitrary: s)
  case Nil
  show ?case by simp
next
  case (Cons j js)
  obtain w s1 where w: "ser_write T (slice bank (j * 32) ((j + 1) * 32)) s = (w, s1)"
    by fastforce
  obtain bs s2 where r: "ser_read T 1 s1 = (bs, s2)"
    by fastforce
  have "bs \<noteq> []"
    using assms r unfolding blocking_def by (metis fst_conv)
  then show ?case using w r Cons.IH [of s2] by (cases "w = 32") simp_all
qed

lemma banks_acked:
  assumes "blocking T"
  shows "list_all acked (banks_log T payload ks s)"
proof (induction ks arbitrary: s)
  case Nil
  show ?case by simp
next
  case (Cons i ks)
  let ?bank = "slice payload (i * 0x2000) ((i + 1) * 0x2000)"
  obtain r1 s1 where c: "flash_chunks T ?bank (py_range 256) s = (r1, s1)"
    by fastforce
  obtain bs s2 where r: "ser_read T 1 s1 = (bs, s2)"
    by fastforce
  have "bs \<noteq> []"
    using assms r unfolding blocking_def by (metis fst_conv)
  then show ?case
    using c r Cons.IH [of s2] chunks_acked [OF assms, of ?bank "py_range 256" s]
    by (cases r1) simp_all
qed

lemma silent_read: "ser_read silent n u = ([], u)"
  by (simp add: silent_def)

lemma silent_chunks_reads:
  "concat (map read_bytes (chunks_log silent bank js u)) = []"
proof (induction js arbitrary: u)
  case Nil
  show ?case by simp
next
  case (Cons j js)
  obtain w s1 where w: "ser_write silent (slice bank (j * 32) ((j + 1) * 32)) u = (w, s1)"
    by fastforce
  show ?case
    using w Cons.IH [of s1] by (cases "w = 32") (simp_all add: silent_read)
qed

lemma silent_banks_reads:
  "concat (map read_bytes (banks_log silent payload ks u)) = []"
proof (induction ks arbitrary: u)
  case Nil
  show ?case by simp
next
  case (Cons i ks)
  let ?bank = "slice payload (i * 0x2000) ((i + 1) * 0x2000)"
  obtain r1 s1 where c: "flash_chunks silent ?bank (py_range 256) u = (r1, s1)"
    by fastforce
  show ?case
    using c Cons.IH [of s1] silent_chunks_reads [of ?bank "py_range 256" u]
    by (cases r1) (simp_all add: silent_read)
qed

lemma unanswered_read:
  assumes "R k \<in> set (map kind_of log)" and "concat (map read_bytes log) = []"
  shows "\<not> list_all acked log"
proof -
  from assms(1) obtain e where e: "e \<in> set log" and k: "kind_of e = R k"
    by auto
  from k obtain bs where "e = ReadEv k bs"
    by (cases e) simp_all
  moreover from assms(2) e have "read_bytes e = []"
    by auto
  ultimately have "\<not> acked e" by simp
  with e show ?thesis by (auto simp: list_all_iff)
qed

text \<open>
  C3, as the specification states it: the calls of \<open>flash\<close> come in the order write,
  read, and so no chunk is sent before the acknowledgment of the previous chunk has been
  consumed. The last part fails on a port on which nothing ever arrives: \<open>flash\<close>
  writes all 256 chunks of a bank and returns, in the prescribed order of calls, while
  its reads returned no byte at all, so that no acknowledgment was consumed.
\<close>

theorem flash_unanswered_counterexample:
  "fst (flash (traced silent) full_bank 1 ([], ())) = Inr ()
   \<and> map kind_of (fst (snd (flash (traced silent) full_bank 1 ([], ())))) = flash_pattern 1
   \<and> concat (map read_bytes (fst (snd (flash (traced silent) full_bank 1 ([], ()))))) = []
   \<and> \<not> list_all acked (fst (snd (flash (traced silent) full_bank 1 ([], ()))))"
proof -
  let ?log = "fst (snd (flash (traced silent) full_bank 1 ([], ())))"
  have ok: "fst (flash silent full_bank 1 ()) = Inr ()"
    by (rule flash_full [OF silent_accepting]) (simp add: full_bank_def)
  have log: "?log = banks_log silent full_bank (py_range 1) ()"
    by (simp add: flash_traced_log)
  have "fst (flash_banks silent full_bank (py_range 1) ()) = Inr ()"
    using ok by (simp only: flash_def)
  with banks_kinds [of silent full_bank "py_range 1" "()"]
  have "map kind_of (banks_log silent full_bank (py_range 1) ())
        = flash_pattern (length (py_range 1))"
    by auto
  then have pat: "map kind_of ?log = flash_pattern 1"
    by (simp only: log length_py_range) simp
  have none: "concat (map read_bytes ?log) = []"
    unfolding log by (rule silent_banks_reads)
  have "R 1 \<in> set (flash_pattern 1)"
    by (simp add: flash_pattern_def bank_pattern_def)
  then have "R 1 \<in> set (map kind_of ?log)"
    by (simp only: pat)
  from unanswered_read [OF this none] ok pat none show ?thesis
    by (simp add: flash_traced_result)
qed

text \<open>
  C3, amended: for every port, payload and bank count, the calls \<open>flash\<close> makes on the
  port are, in order: for each bank 256 times a chunk write followed by exactly one read
  asking for one byte, then one more such read before the first write of the next bank.
  A run that completes makes exactly this sequence; a run that fails stops right after a
  write, and what it did up to there is an initial part of the sequence. \<open>flash\<close> does
  not look at what a read returns: a chunk is sent once the read after the previous
  chunk has returned, and the acknowledgment has been consumed by then on a port whose
  one-byte read never returns empty, where every read of the run returned a byte.
\<close>

theorem flash_call_order:
  assumes "flash (traced ser) payload n ([], s) = (r, (log, s'))"
  shows "prefix (map kind_of log) (flash_pattern (nat n))
    \<and> (r = Inr () \<longrightarrow> map kind_of log = flash_pattern (nat n))
    \<and> (r \<noteq> Inr () \<longrightarrow>
         (\<exists>k<nat n. \<exists>m<256. map kind_of log = flash_pattern k @ chunk_pattern m @ [W]))
    \<and> (blocking ser \<longrightarrow> list_all acked log)"
proof -
  have r: "r = fst (flash_banks ser payload (py_range n) s)"
    using flash_traced_result [of ser payload n "[]" s] assms by (simp add: flash_def)
  have log: "log = banks_log ser payload (py_range n) s"
    using flash_traced_log [of ser payload n "[]" s] assms by simp
  have ack: "list_all acked log" if "blocking ser"
    unfolding log using that by (rule banks_acked)
  from banks_kinds [of ser payload "py_range n" s] show ?thesis
  proof (elim disjE conjE exE)
    assume "fst (flash_banks ser payload (py_range n) s) = Inr ()"
      and "map kind_of (banks_log ser payload (py_range n) s)
           = flash_pattern (length (py_range n))"
    then show ?thesis using r log ack by (simp add: length_py_range)
  next
    fix k m
    assume f: "fst (flash_banks ser payload (py_range n) s) = Inl AssertionError"
      and k: "k < length (py_range n)" and m: "m < (256::nat)"
      and p: "map kind_of (banks_log ser payload (py_range n) s)
              = flash_pattern k @ chunk_pattern m @ [W]"
    from k have k': "k < nat n" by (simp add: length_py_range)
    have "prefix (map kind_of log) (flash_pattern (nat n))"
      unfolding log p using k' m by (rule failed_prefix)
    moreover have "r \<noteq> Inr ()" using r f by simp
    moreover have "\<exists>k<nat n. \<exists>m<256. map kind_of log = flash_pattern k @ chunk_pattern m @ [W]"
      using k' m p log by blast
    ultimately show ?thesis using ack by blast
  qed
qed

theorem flash_call_order_witness:
  "fst (flash (traced acking) full_bank 1 ([], ())) = Inr ()
   \<and> map kind_of (fst (snd (flash (traced acking) full_bank 1 ([], ())))) = flash_pattern 1
   \<and> blocking acking
   \<and> list_all acked (fst (snd (flash (traced acking) full_bank 1 ([], ()))))
   \<and> flash (traced buffered) short_payload 1 ([], []) =
       (Inl AssertionError, ([Wrote (replicate 32 0x5A) 32, ReadEv 1 [], Wrote [0x5A] 1], []))
   \<and> prefix (map kind_of [Wrote (replicate 32 0x5A) 32, ReadEv 1 [], Wrote [0x5A] 1])
        (flash_pattern 1)"
proof -
  let ?run = "flash (traced acking) full_bank 1 ([], ())"
  have "fst (flash acking full_bank 1 ()) = Inr ()"
    by (rule flash_full [OF acking_accepting]) (simp add: full_bank_def)
  then have ok: "fst ?run = Inr ()"
    by (simp add: flash_traced_result)
  have "?run = (fst ?run, (fst (snd ?run), snd (snd ?run)))"
    by (simp only: prod.collapse)
  from flash_call_order [OF this] ok acking_blocking
  have a: "map kind_of (fst (snd ?run)) = flash_pattern (nat 1)"
    and c: "list_all acked (fst (snd ?run))" by blast+
  from flash_call_order [OF short_run]
  have b: "prefix (map kind_of [Wrote (replicate 32 0x5A) 32, ReadEv 1 [], Wrote [0x5A] 1])
        (flash_pattern (nat 1))" by blast
  from ok a b c short_run acking_blocking show ?thesis by simp
qed

section \<open>flash: a short write\<close>

lemma chunks_short:
  "(fst (flash_chunks T bank js s) = Inr ()
      \<and> \<not> list_ex short_write (chunks_log T bank js s))
   \<or> (fst (flash_chunks T bank js s) = Inl AssertionError
      \<and> chunks_log T bank js s \<noteq> []
      \<and> short_write (last (chunks_log T bank js s))
      \<and> \<not> list_ex short_write (butlast (chunks_log T bank js s)))"
proof (induction js arbitrary: s)
  case Nil
  show ?case by simp
next
  case (Cons j js)
  obtain w s1 where w: "ser_write T (slice bank (j * 32) ((j + 1) * 32)) s = (w, s1)"
    by fastforce
  obtain bs s2 where r: "ser_read T 1 s1 = (bs, s2)"
    by fastforce
  show ?case
  proof (cases "w = 32")
    case False
    then show ?thesis using w by simp
  next
    case True
    from Cons.IH [of s2] show ?thesis
      using True w r by (elim disjE conjE) simp_all
  qed
qed

lemma banks_short:
  "(fst (flash_banks T payload ks s) = Inr ()
      \<and> \<not> list_ex short_write (banks_log T payload ks s))
   \<or> (fst (flash_banks T payload ks s) = Inl AssertionError
      \<and> banks_log T payload ks s \<noteq> []
      \<and> short_write (last (banks_log T payload ks s))
      \<and> \<not> list_ex short_write (butlast (banks_log T payload ks s)))"
proof (induction ks arbitrary: s)
  case Nil
  show ?case by simp
next
  case (Cons i ks)
  let ?bank = "slice payload (i * 0x2000) ((i + 1) * 0x2000)"
  obtain r1 s1 where c: "flash_chunks T ?bank (py_range 256) s = (r1, s1)"
    by fastforce
  obtain bs s2 where r: "ser_read T 1 s1 = (bs, s2)"
    by fastforce
  from chunks_short [of T ?bank "py_range 256" s] show ?case
  proof (elim disjE conjE)
    assume "fst (flash_chunks T ?bank (py_range 256) s) = Inl AssertionError"
      and "chunks_log T ?bank (py_range 256) s \<noteq> []"
      and "short_write (last (chunks_log T ?bank (py_range 256) s))"
      and "\<not> list_ex short_write (butlast (chunks_log T ?bank (py_range 256) s))"
    then show ?thesis using c by simp
  next
    assume ok: "fst (flash_chunks T ?bank (py_range 256) s) = Inr ()"
      and no: "\<not> list_ex short_write (chunks_log T ?bank (py_range 256) s)"
    from Cons.IH [of s2] show ?thesis
      using ok no c r by (elim disjE conjE) (simp_all add: butlast_append)
  qed
qed

text \<open>
  C4. For every chunk write during \<open>flash\<close>: if the port reports a count other than
  32, in particular fewer than 32 bytes, \<open>flash\<close> fails, with the \<open>AssertionError\<close>
  of \<open>assert written == 32\<close> (the short-write error of the specification), and that
  write is the last call made on the port: no further chunk is written, and no read
  follows.
\<close>

theorem short_write_aborts:
  assumes "flash (traced ser) payload n ([], s) = (r, (log, s'))"
    and "log = pre @ Wrote c w # post" and "w \<noteq> 32"
  shows "r = Inl AssertionError \<and> post = []"
proof -
  have r: "r = fst (flash_banks ser payload (py_range n) s)"
    using flash_traced_result [of ser payload n "[]" s] assms(1) by (simp add: flash_def)
  have log: "log = banks_log ser payload (py_range n) s"
    using flash_traced_log [of ser payload n "[]" s] assms(1) by simp
  have ex: "list_ex short_write log"
    using assms(2,3) by simp
  from banks_short [of ser payload "py_range n" s]
  have f: "r = Inl AssertionError" and b: "\<not> list_ex short_write (butlast log)"
    using ex unfolding r log by blast+
  have "post = []"
  proof (rule ccontr)
    assume "post \<noteq> []"
    then have "butlast log = pre @ Wrote c w # butlast post"
      using assms(2) by (simp add: butlast_append)
    then show False using b assms(3) by simp
  qed
  with f show ?thesis by simp
qed

theorem short_write_aborts_witness:
  "flash (traced buffered) short_payload 1 ([], []) =
     (Inl AssertionError, ([Wrote (replicate 32 0x5A) 32, ReadEv 1 []] @ Wrote [0x5A] 1 # [], []))
   \<and> (1::nat) \<noteq> 32"
proof -
  have run: "flash (traced buffered) short_payload 1 ([], []) =
     (Inl AssertionError, ([Wrote (replicate 32 0x5A) 32, ReadEv 1 []] @ Wrote [0x5A] 1 # [], []))"
    using short_run by simp
  have ne: "(1::nat) \<noteq> 32" by simp
  from short_write_aborts [OF run refl ne] run ne show ?thesis by simp
qed

section \<open>flash: payloads shorter than the banks\<close>

lemma slice_slice: "b \<le> B - A \<Longrightarrow> slice (slice xs A B) a b = slice xs (A + a) (A + b)"
  by (simp add: slice_def drop_take min_def add.commute)

lemma chunks_payload:
  "Wrote c w \<in> set (chunks_log T bank js s) \<Longrightarrow>
     \<exists>j\<in>set js. c = slice bank (j * 32) ((j + 1) * 32)"
proof (induction js arbitrary: s)
  case Nil
  then show ?case by simp
next
  case (Cons j js)
  then show ?case
    by (auto simp: Let_def split: prod.splits if_splits)
qed

lemma banks_payload:
  "Wrote c w \<in> set (banks_log T payload ks s) \<Longrightarrow>
     \<exists>i\<in>set ks. \<exists>j<256. c = slice payload (i * 0x2000 + j * 32) (i * 0x2000 + j * 32 + 32)"
proof (induction ks arbitrary: s)
  case Nil
  then show ?case by simp
next
  case (Cons i ks)
  let ?bank = "slice payload (i * 0x2000) ((i + 1) * 0x2000)"
  have here: "\<exists>j<256. c = slice payload (i * 0x2000 + j * 32) (i * 0x2000 + j * 32 + 32)"
    if "Wrote c w \<in> set (chunks_log T ?bank (py_range 256) s)"
  proof -
    from chunks_payload [OF that] obtain j
      where j: "j < 256" and c: "c = slice ?bank (j * 32) ((j + 1) * 32)"
      by (auto simp: py_range_def)
    have "(j + 1) * 32 \<le> (i + 1) * 0x2000 - i * 0x2000" using j by simp
    then have "slice ?bank (j * 32) ((j + 1) * 32)
        = slice payload (i * 0x2000 + j * 32) (i * 0x2000 + (j + 1) * 32)"
      by (rule slice_slice)
    with c have "c = slice payload (i * 0x2000 + j * 32) (i * 0x2000 + j * 32 + 32)"
      by (simp add: ac_simps)
    with j show ?thesis by blast
  qed
  obtain r1 s1 where fc: "flash_chunks T ?bank (py_range 256) s = (r1, s1)"
    by fastforce
  obtain bs s2 where rd: "ser_read T 1 s1 = (bs, s2)"
    by fastforce
  have "Wrote c w \<in> set (chunks_log T ?bank (py_range 256) s)
        \<or> Wrote c w \<in> set (banks_log T payload ks s2)"
    using Cons.prems fc rd by (cases r1) auto
  then consider
      "Wrote c w \<in> set (chunks_log T ?bank (py_range 256) s)"
    | "Wrote c w \<in> set (banks_log T payload ks s2)"
    by blast
  then show ?case
  proof cases
    case 1
    from here [OF this] show ?thesis by auto
  next
    case 2
    from Cons.IH [OF this] show ?thesis by auto
  qed
qed

lemma chunks_fail:
  assumes "honest T"
  shows "\<exists>j\<in>set js. length (slice bank (j * 32) ((j + 1) * 32)) < 32 \<Longrightarrow>
         fst (flash_chunks T bank js s) = Inl AssertionError"
proof (induction js arbitrary: s)
  case Nil
  then show ?case by simp
next
  case (Cons j js)
  let ?c = "slice bank (j * 32) ((j + 1) * 32)"
  obtain w s1 where w: "ser_write T ?c s = (w, s1)"
    by fastforce
  obtain bs s2 where r: "ser_read T 1 s1 = (bs, s2)"
    by fastforce
  have le: "w \<le> length ?c"
    using assms w unfolding honest_def by (metis fst_conv)
  show ?case
  proof (cases "w = 32")
    case False
    then show ?thesis using w by simp
  next
    case True
    with le have "\<not> length ?c < 32" by simp
    with Cons.prems have "\<exists>j\<in>set js. length (slice bank (j * 32) ((j + 1) * 32)) < 32"
      by auto
    from Cons.IH [OF this, of s2] show ?thesis using True w r by simp
  qed
qed

lemma short_bank_chunk:
  assumes "length bank < 0x2000"
  shows "\<exists>j\<in>set (py_range 256). length (slice bank (j * 32) ((j + 1) * 32)) < 32"
proof -
  let ?j = "length bank div 32"
  have "?j < 256" using assms by simp
  moreover have "length (slice bank (?j * 32) ((?j + 1) * 32)) < 32"
    by (simp add: length_slice minus_div_mult_eq_mod)
  ultimately show ?thesis by (auto simp: py_range_def)
qed

lemma banks_fail:
  assumes "honest T"
  shows "\<exists>i\<in>set ks. length (slice payload (i * 0x2000) ((i + 1) * 0x2000)) < 0x2000 \<Longrightarrow>
         fst (flash_banks T payload ks s) = Inl AssertionError"
proof (induction ks arbitrary: s)
  case Nil
  then show ?case by simp
next
  case (Cons i ks)
  let ?bank = "slice payload (i * 0x2000) ((i + 1) * 0x2000)"
  obtain r1 s1 where c: "flash_chunks T ?bank (py_range 256) s = (r1, s1)"
    by fastforce
  obtain bs s2 where r: "ser_read T 1 s1 = (bs, s2)"
    by fastforce
  from flash_chunks_result [of T ?bank "py_range 256" s] c
  consider "r1 = Inl AssertionError" | "r1 = Inr ()" by auto
  then show ?case
  proof cases
    case 1
    then show ?thesis using c by simp
  next
    case 2
    have "\<not> length ?bank < 0x2000"
    proof
      assume "length ?bank < 0x2000"
      from chunks_fail [OF assms short_bank_chunk [OF this], of s] c 2
      show False by simp
    qed
    with Cons.prems
    have "\<exists>i\<in>set ks. length (slice payload (i * 0x2000) ((i + 1) * 0x2000)) < 0x2000"
      by auto
    from Cons.IH [OF this, of s2] show ?thesis using 2 c r by simp
  qed
qed

lemma flash_fail:
  assumes "honest T" and "length payload < nat n * 0x2000"
  shows "fst (flash T payload n s) = Inl AssertionError"
proof -
  from assms(2) have pos: "0 < nat n" by (cases "nat n") simp_all
  let ?i = "nat n - 1"
  have "?i \<in> set (py_range n)" using pos by (simp add: py_range_def)
  moreover have "length (slice payload (?i * 0x2000) ((?i + 1) * 0x2000)) < 0x2000"
    using assms(2) pos by (auto simp: length_slice min_def algebra_simps)
  ultimately show ?thesis
    unfolding flash_def by (intro banks_fail [OF assms(1)]) blast
qed


lemma buffered_honest: "honest buffered"
  by (simp add: honest_def buffered_def)

text \<open>
  C5, as the specification states it: a payload whose length is no multiple of
  \<open>0x2000\<close> has its shorter last bank sent, and that is no error. It fails on a payload
  of 33 bytes flashed as one bank to a port that takes every byte it is given: the
  second chunk has one byte, the port reports 1, and \<open>flash\<close> ends in the
  \<open>AssertionError\<close>.
\<close>

theorem short_payload_counterexample:
  "length short_payload mod 0x2000 \<noteq> 0
   \<and> fst (flash buffered short_payload 1 []) = Inl AssertionError"
  by code_simp

text \<open>
  C5, amended: for every payload, \<open>flash\<close> never pads: each chunk it writes is the
  slice of the payload at \<open>[i * 0x2000 + j * 32, i * 0x2000 + j * 32 + 32)\<close> for a bank
  \<open>i\<close> below the bank count and a chunk \<open>j\<close> below 256, cut where the payload ends.
  A payload shorter than the bank count times \<open>0x2000\<close> is an error all the same: on a
  port that never reports more bytes written than it was given, the first chunk shorter
  than 32 bytes fails the assertion and \<open>flash\<close> ends in \<open>AssertionError\<close>.
\<close>

theorem flash_short_payload:
  assumes "flash (traced ser) payload n ([], s) = (r, (log, s'))"
  shows "(\<forall>c w. Wrote c w \<in> set log \<longrightarrow>
            (\<exists>i<nat n. \<exists>j<256.
               c = slice payload (i * 0x2000 + j * 32) (i * 0x2000 + j * 32 + 32)))
    \<and> (honest ser \<and> length payload < nat n * 0x2000 \<longrightarrow> r = Inl AssertionError)"
proof -
  have r: "r = fst (flash ser payload n s)"
    using flash_traced_result [of ser payload n "[]" s] assms by simp
  have log: "log = banks_log ser payload (py_range n) s"
    using flash_traced_log [of ser payload n "[]" s] assms by simp
  have a: "\<exists>i<nat n. \<exists>j<256.
             c = slice payload (i * 0x2000 + j * 32) (i * 0x2000 + j * 32 + 32)"
    if "Wrote c w \<in> set log" for c w
    using banks_payload [of c w ser payload "py_range n" s] that
    unfolding log by (auto simp: py_range_def)
  have b: "r = Inl AssertionError" if "honest ser" and "length payload < nat n * 0x2000"
    unfolding r using that by (rule flash_fail)
  from a b show ?thesis by blast
qed

theorem flash_short_payload_witness:
  "honest buffered \<and> length short_payload < nat 1 * 0x2000
   \<and> flash (traced buffered) short_payload 1 ([], []) =
       (Inl AssertionError, ([Wrote (replicate 32 0x5A) 32, ReadEv 1 [], Wrote [0x5A] 1], []))
   \<and> [0x5A] = slice short_payload (0 * 0x2000 + 1 * 32) (0 * 0x2000 + 1 * 32 + 32)"
proof -
  have len: "length short_payload < nat 1 * 0x2000" by code_simp
  have sl: "[0x5A] = slice short_payload (0 * 0x2000 + 1 * 32) (0 * 0x2000 + 1 * 32 + 32)"
    by code_simp
  from flash_short_payload [OF short_run] buffered_honest len
  have "Inl AssertionError = (Inl AssertionError :: error + unit)" by blast
  with buffered_honest len short_run sl show ?thesis by simp
qed

section \<open>dump\<close>

lemma dump_log_length: "length (dump_log T ks s) = length ks"
  by (induction ks arbitrary: s) (simp_all split: prod.splits)

lemma dump_log_reads: "list_all (read_of 512) (dump_log T ks s)"
  by (induction ks arbitrary: s) (simp_all split: prod.splits)

lemma dump_loop_concat:
  "fst (dump_loop T ks acc s) = acc @ concat (map read_bytes (dump_log T ks s))"
  by (induction ks arbitrary: acc s) (simp_all split: prod.splits)

lemma full_reads_length:
  "list_all (\<lambda>e. length (read_bytes e) = 512) log \<Longrightarrow>
     length (concat (map read_bytes log)) = 512 * length log"
  by (induction log) simp_all

lemma dump_traced:
  "dump (traced T) path n (log, s) =
     ((path, fst (dump_loop T (py_range n) [] s)),
      (log @ dump_log T (py_range n) s, snd (dump_loop T (py_range n) [] s)))"
  by (simp add: dump_def dump_loop_traced split: prod.splits)

text \<open>
  C2, as the specification states it: a read that yields fewer than 512 bytes makes
  \<open>dump\<close> raise, or wait for the rest; a short block is never appended. It fails on a
  port with a receive timeout that holds three bytes: the one read of 512 returns them,
  and \<open>dump\<close> returns with a file of three bytes.
\<close>

theorem short_read_counterexample:
  "dump (traced buffered) ''ram'' 1 ([], [1, 2, 3]) =
     ((''ram'', [1, 2, 3]), ([ReadEv 512 [1, 2, 3]], []))"
  by code_simp

text \<open>
  C2, amended: for every port and block count, \<open>dump\<close> makes exactly that many reads,
  each asking for 512 bytes, and the file it writes is the concatenation, in order, of
  what the reads returned, whatever their lengths: \<open>dump\<close> has no check of its own and
  raises nothing. The file has 512 bytes per block when every read returns 512 bytes, as
  a port without timeout does. Recording the calls does not change the result.
\<close>

theorem dump_appends_reads:
  assumes "dump (traced ser) path n ([], s) = ((p, out), (log, s'))"
  shows "p = path \<and> length log = nat n \<and> list_all (read_of 512) log
    \<and> out = concat (map read_bytes log)
    \<and> (list_all (\<lambda>e. length (read_bytes e) = 512) log \<longrightarrow> length out = 512 * nat n)
    \<and> dump ser path n s = ((path, out), s')"
proof -
  from assms have p: "p = path"
    and out: "out = fst (dump_loop ser (py_range n) [] s)"
    and log: "log = dump_log ser (py_range n) s"
    and s': "s' = snd (dump_loop ser (py_range n) [] s)"
    by (simp_all add: dump_traced)
  have len: "length log = nat n"
    unfolding log by (simp add: dump_log_length length_py_range)
  have rd: "list_all (read_of 512) log"
    unfolding log by (rule dump_log_reads)
  have cat: "out = concat (map read_bytes log)"
    unfolding out log by (simp add: dump_loop_concat)
  have full: "length out = 512 * nat n"
    if "list_all (\<lambda>e. length (read_bytes e) = 512) log"
    using full_reads_length [OF that] cat len by simp
  have same: "dump ser path n s = ((path, out), s')"
    unfolding out s' by (simp add: dump_def split: prod.splits)
  from p len rd cat full same show ?thesis by blast
qed

theorem dump_appends_reads_witness:
  "dump (traced buffered) ''ram'' 1 ([], replicate 512 7) =
     ((''ram'', replicate 512 7), ([ReadEv 512 (replicate 512 7)], []))
   \<and> list_all (\<lambda>e. length (read_bytes e) = 512) [ReadEv 512 (replicate 512 7)]
   \<and> length (replicate 512 (7::byte)) = 512 * nat 1"
proof -
  have run: "dump (traced buffered) ''ram'' 1 ([], replicate 512 7) =
     ((''ram'', replicate 512 7), ([ReadEv 512 (replicate 512 7)], []))"
    by (simp add: dump_traced py_range_def buffered_def)
  have full: "list_all (\<lambda>e. length (read_bytes e) = 512) [ReadEv 512 (replicate 512 7)]"
    by simp
  from dump_appends_reads [OF run] full
  have "length (replicate 512 (7::byte)) = 512 * nat 1" by blast
  with run full show ?thesis by simp
qed

end
